theory Spec2Isabelle
  imports Complex_Main "HOL-Library.Sublist"
begin

section \<open>Python values and exceptions\<close>

text \<open>
  The values that flow through \<^verbatim>\<open>function_app.py\<close> are decoded JSON documents
  (request bodies, Event Grid payloads, orchestration inputs and results). A Python
  \<^verbatim>\<open>dict\<close> with string keys is an association list looked up with \<open>map_of\<close>;
  \<open>PFailure\<close> is a failure descriptor object, the only non-JSON value a result
  list may hold. Characters are code points below 256.
\<close>

datatype exn =
    ValueError
  | AttributeError
  | TypeError
  | KeyError string
  | IndexError
  | ActivityFailure string

datatype pyval =
    PNone
  | PBool bool
  | PInt int
  | PFloat rat
  | PStr string
  | PList "pyval list"
  | PDict "(string \<times> pyval) list"
  | PFailure exn

section \<open>String helpers of the Python runtime\<close>

text \<open>
  \<^verbatim>\<open>s.split(sep)\<close> for a non-empty separator: leftmost, non-overlapping
  occurrences, scanning left to right; \<open>cur\<close> holds the current piece reversed.
\<close>

function split_from :: "string \<Rightarrow> string \<Rightarrow> string \<Rightarrow> string list" where
  "split_from sep cur s =
     (if s = [] then [rev cur]
      else if sep \<noteq> [] \<and> prefix sep s
        then rev cur # split_from sep [] (drop (length sep) s)
      else split_from sep (hd s # cur) (tl s))"
  by pat_completeness auto
termination
  by (relation "measure (\<lambda>(sep, cur, s). length s)") (auto simp: neq_Nil_conv)

declare split_from.simps [simp del]

definition split :: "string \<Rightarrow> string \<Rightarrow> string list" where
  "split s sep = split_from sep [] s"

text \<open>\<^verbatim>\<open>str.isspace\<close> on the code points below 256, and \<^verbatim>\<open>str.strip()\<close>.\<close>

definition is_space :: "char \<Rightarrow> bool" where
  "is_space c = ((of_char c :: nat) \<in> {9, 10, 11, 12, 13, 28, 29, 30, 31, 32, 133, 160})"

definition strip :: "string \<Rightarrow> string" where
  "strip s = rev (dropWhile is_space (rev (dropWhile is_space s)))"

text \<open>Decimal rendering of an index inside an f-string.\<close>

definition digit :: "nat \<Rightarrow> char" where
  "digit d = char_of (48 + d)"

function show_nat :: "nat \<Rightarrow> string" where
  "show_nat n = (if n < 10 then [digit n] else show_nat (n div 10) @ [digit (n mod 10)])"
  by pat_completeness auto
termination
  by (relation "measure id") auto

declare show_nat.simps [simp del]

section \<open>Event Grid starter: \<^verbatim>\<open>start_orchestrator_blob\<close>\<close>

record event_grid_event =
  subject :: string
  event_type :: string
  data :: pyval

text \<open>
  Modelled from the spec: \<^verbatim>\<open>BlobMetadata\<close> and its \<^verbatim>\<open>to_dict\<close> live in
  \<^verbatim>\<open>pipelineUtils/blob_functions.py\<close>, which is not among the sources; the spec
  describes the item as a \<^verbatim>\<open>{name, url, container}\<close> record.
\<close>

record blob_metadata =
  bm_name :: string
  bm_url :: pyval
  bm_container :: string

definition to_dict :: "blob_metadata \<Rightarrow> pyval" where
  "to_dict m = PDict [(''name'', PStr (bm_name m)), (''url'', bm_url m),
                      (''container'', PStr (bm_container m))]"

text \<open>\<^verbatim>\<open>d.get(k)\<close>: the value, or \<^verbatim>\<open>None\<close>; only a dict has the method.\<close>

definition dict_get :: "pyval \<Rightarrow> string \<Rightarrow> exn + pyval" where
  "dict_get v k =
     (case v of
        PDict d \<Rightarrow> (case map_of d k of None \<Rightarrow> Inr PNone | Some x \<Rightarrow> Inr x)
      | _ \<Rightarrow> Inl AttributeError)"

definition blob_name_of :: "string \<Rightarrow> string" where
  "blob_name_of blob_subject =
     (case split blob_subject ''/blobs/'' of
        _ # p1 # _ \<Rightarrow> p1
      | _ \<Rightarrow> blob_subject)"

definition container_name_of :: "string \<Rightarrow> exn + string" where
  "container_name_of blob_subject =
     (case split blob_subject ''/containers/'' of
        _ # p1 # _ \<Rightarrow> (case split p1 ''/'' of p0 # _ \<Rightarrow> Inr p0 | [] \<Rightarrow> Inl IndexError)
      | _ \<Rightarrow> Inr ''bronze'')"

text \<open>
  The result is the \<^verbatim>\<open>client_input\<close> handed to
  \<^verbatim>\<open>client.start_new("orchestrator", ...)\<close>, or the exception that
  escapes before the call.
\<close>

definition start_orchestrator_blob :: "event_grid_event \<Rightarrow> exn + pyval" where
  "start_orchestrator_blob event =
     (case dict_get (data event) ''url'' of
        Inl e \<Rightarrow> Inl e
      | Inr blob_url \<Rightarrow>
          (let blob_subject = subject event;
               blob_name = blob_name_of blob_subject
           in case container_name_of blob_subject of
                Inl e \<Rightarrow> Inl e
              | Inr container_name \<Rightarrow>
                  (let full_blob_name = container_name @ ''/'' @ blob_name;
                       metadata = \<lparr>bm_name = full_blob_name, bm_url = blob_url,
                                   bm_container = container_name\<rparr>
                   in Inr (PList [to_dict metadata]))))"

section \<open>HTTP starter: \<^verbatim>\<open>start_orchestrator_http\<close>\<close>

datatype http_outcome =
    HttpResponse string nat
  | CheckStatusResponse
  | Unhandled exn

definition required :: "string list" where
  "required = [''name'', ''url'', ''container'']"

text \<open>
  One element of the generator inside \<^verbatim>\<open>any(...)\<close>:
  \<^verbatim>\<open>k not in b or not isinstance(b[k], str) or not b[k].strip()\<close>.
\<close>

definition bad_key :: "(string \<times> pyval) list \<Rightarrow> string \<Rightarrow> bool" where
  "bad_key b k =
     (case map_of b k of
        None \<Rightarrow> True
      | Some (PStr s) \<Rightarrow> strip s = []
      | Some _ \<Rightarrow> True)"

definition not_an_object :: "nat \<Rightarrow> http_outcome" where
  "not_an_object i =
     HttpResponse (''Invalid request: blobs['' @ show_nat i @ ''] must be an object.'') 400"

definition missing_keys :: "nat \<Rightarrow> http_outcome" where
  "missing_keys i =
     HttpResponse (''Invalid request: blobs['' @ show_nat i
       @ ''] must contain non-empty string keys ('name', 'url', 'container').'') 400"

text \<open>The \<^verbatim>\<open>for i, b in enumerate(blobs)\<close> loop; \<open>None\<close> when it falls through.\<close>

fun check_blobs :: "nat \<Rightarrow> pyval list \<Rightarrow> http_outcome option" where
  "check_blobs i [] = None"
| "check_blobs i (b # bs) =
     (case b of
        PDict d \<Rightarrow>
          (if list_ex (bad_key d) required then Some (missing_keys i)
           else check_blobs (Suc i) bs)
      | _ \<Rightarrow> Some (not_an_object i))"

definition not_an_array :: http_outcome where
  "not_an_array = HttpResponse ''Invalid request: 'blobs' must be a non-empty array.'' 400"

text \<open>
  The argument is what \<^verbatim>\<open>req.get_json()\<close> gives: \<open>None\<close> when it raises
  \<^verbatim>\<open>ValueError\<close>, the decoded body otherwise. The result pairs the inputs
  passed to \<^verbatim>\<open>client.start_new('orchestrator', ...)\<close> with what the function
  returns or lets escape.
\<close>

definition start_orchestrator_http :: "pyval option \<Rightarrow> pyval list \<times> http_outcome" where
  "start_orchestrator_http req_json =
     (case req_json of
        None \<Rightarrow> ([], HttpResponse ''Invalid JSON.'' 400)
      | Some body \<Rightarrow>
          (case dict_get body ''blobs'' of
             Inl e \<Rightarrow> ([], Unhandled e)
           | Inr blobs \<Rightarrow>
               (case blobs of
                  PList bs \<Rightarrow>
                    (if bs = [] then ([], not_an_array)
                     else (case check_blobs 0 bs of
                             Some r \<Rightarrow> ([], r)
                           | None \<Rightarrow> ([PList bs], CheckStatusResponse)))
                | _ \<Rightarrow> ([], not_an_array))))"

section \<open>Orchestrator functions as generators\<close>

text \<open>
  An orchestrator function is a Python generator: it yields a task and is resumed with
  the task's result (\<^verbatim>\<open>send\<close>) or with an exception raised at the
  \<^verbatim>\<open>yield\<close> (\<^verbatim>\<open>throw\<close>). Neither orchestrator has a
  \<^verbatim>\<open>try\<close> block, so a thrown exception leaves the generator.
\<close>

datatype task =
    CallActivity string pyval
  | CallSubOrchestrator string pyval
  | TaskAll "task list"

datatype signal = Sent pyval | Thrown exn

datatype orch =
    Return pyval
  | Raise exn
  | Yield task "signal \<Rightarrow> orch"

text \<open>\<^verbatim>\<open>for blob_metadata in input_data\<close>: what Python iterates over.\<close>

definition iterate :: "pyval \<Rightarrow> exn + pyval list" where
  "iterate v =
     (case v of
        PList xs \<Rightarrow> Inr xs
      | PDict d \<Rightarrow> Inr (map (\<lambda>kv. PStr (fst kv)) d)
      | PStr s \<Rightarrow> Inr (map (\<lambda>c. PStr [c]) s)
      | _ \<Rightarrow> Inl TypeError)"

definition run :: "pyval \<Rightarrow> orch" where
  "run input_data =
     (case iterate input_data of
        Inl e \<Rightarrow> Raise e
      | Inr items \<Rightarrow>
          Yield (TaskAll (map (CallSubOrchestrator ''ProcessBlob'') items))
            (\<lambda>s. case s of Sent results \<Rightarrow> Return results | Thrown e \<Rightarrow> Raise e))"

text \<open>\<^verbatim>\<open>v[k]\<close> with a string key.\<close>

definition getitem :: "pyval \<Rightarrow> string \<Rightarrow> exn + pyval" where
  "getitem v k =
     (case v of
        PDict d \<Rightarrow> (case map_of d k of None \<Rightarrow> Inl (KeyError k) | Some x \<Rightarrow> Inr x)
      | _ \<Rightarrow> Inl TypeError)"

definition process_blob :: "pyval \<Rightarrow> string \<Rightarrow> orch" where
  "process_blob blob_metadata sub_orchestration_id =
     Yield (CallActivity ''runDocIntel'' blob_metadata)
       (\<lambda>s1. case s1 of
          Thrown e \<Rightarrow> Raise e
        | Sent text_result \<Rightarrow>
            (let call_aoai_input =
                   PDict [(''text_result'', text_result),
                          (''instance_id'', PStr sub_orchestration_id)]
             in Yield (CallActivity ''callAoai'' call_aoai_input)
                  (\<lambda>s2. case s2 of
                     Thrown e \<Rightarrow> Raise e
                   | Sent json_str \<Rightarrow>
                       (case getitem blob_metadata ''name'' of
                          Inl e \<Rightarrow> Raise e
                        | Inr blob_name \<Rightarrow>
                            Yield (CallActivity ''writeToBlob''
                                     (PDict [(''json_str'', json_str),
                                             (''blob_name'', blob_name)]))
                              (\<lambda>s3. case s3 of
                                 Thrown e \<Rightarrow> Raise e
                               | Sent task_result \<Rightarrow>
                                   Return (PDict [(''blob'', blob_metadata),
                                                  (''text_result'', text_result),
                                                  (''task_result'', task_result)]))))))"

section \<open>Driving a generator\<close>

datatype status = Running | Completed pyval | Failed exn

text \<open>
  The generator protocol against a script of resumption signals: every yielded task is
  recorded in order; the run ends when the generator returns, raises, or waits for a
  signal the script does not hold.
\<close>

fun drive :: "orch \<Rightarrow> signal list \<Rightarrow> task list \<times> status" where
  "drive (Return v) rs = ([], Completed v)"
| "drive (Raise e) rs = ([], Failed e)"
| "drive (Yield t k) [] = ([t], Running)"
| "drive (Yield t k) (r # rs) = (case drive (k r) rs of (ts, st) \<Rightarrow> (t # ts, st))"

definition activity_name :: "task \<Rightarrow> string" where
  "activity_name t =
     (case t of CallActivity n _ \<Rightarrow> n | CallSubOrchestrator n _ \<Rightarrow> n | TaskAll _ \<Rightarrow> [])"

section \<open>Fan-out and fan-in\<close>

datatype outcome = Result pyval | Failure exn

text \<open>
  Modelled from the spec: the fan-out/fan-in coordinator behind
  \<^verbatim>\<open>context.task_all\<close> is the hosted runtime, not among the sources. Section
  4.4: \<^verbatim>\<open>fanOut\<close> creates one child per item in input order;
  \<^verbatim>\<open>joinAll\<close> suspends the parent until every child is terminal and gives one
  outcome per child, a result or a failure, in fan-out order. A child is identified by
  its position; its slot holds its terminal outcome once it has one.
\<close>

definition fanOut :: "task list \<Rightarrow> outcome option list" where
  "fanOut items = map (\<lambda>_. None) items"

definition child_terminal :: "nat \<Rightarrow> outcome \<Rightarrow> outcome option list \<Rightarrow> outcome option list" where
  "child_terminal i oc slots =
     (if i < length slots \<and> slots ! i = None then slots[i := Some oc] else slots)"

definition joinAll :: "outcome option list \<Rightarrow> outcome list option" where
  "joinAll slots = (if list_ex (\<lambda>s. s = None) slots then None else Some (map the slots))"

text \<open>The parent waits while child completions arrive, in whatever order they do.\<close>

fun await_all :: "outcome option list \<Rightarrow> (nat \<times> outcome) list \<Rightarrow> outcome list option" where
  "await_all slots [] = joinAll slots"
| "await_all slots ((i, oc) # rest) =
     (case joinAll slots of
        Some outs \<Rightarrow> Some outs
      | None \<Rightarrow> await_all (child_terminal i oc slots) rest)"

definition outcome_val :: "outcome \<Rightarrow> pyval" where
  "outcome_val oc = (case oc of Result v \<Rightarrow> v | Failure e \<Rightarrow> PFailure e)"

definition finish :: "orch \<Rightarrow> status" where
  "finish p = (case p of Return v \<Rightarrow> Completed v | Raise e \<Rightarrow> Failed e | Yield _ _ \<Rightarrow> Running)"

text \<open>
  The parent instance: \<^verbatim>\<open>run\<close> up to its join, the children it started, and
  its status once the listed child completions have arrived.
\<close>

definition orchestrate :: "pyval \<Rightarrow> (nat \<times> outcome) list \<Rightarrow> task list \<times> status" where
  "orchestrate input_data completions =
     (case run input_data of
        Return v \<Rightarrow> ([], Completed v)
      | Raise e \<Rightarrow> ([], Failed e)
      | Yield t k \<Rightarrow>
          (case t of
             TaskAll ts \<Rightarrow>
               (case await_all (fanOut ts) completions of
                  None \<Rightarrow> (ts, Running)
                | Some outs \<Rightarrow> (ts, finish (k (Sent (PList (map outcome_val outs))))))
           | _ \<Rightarrow> ([t], Running)))"

definition arrivals :: "outcome list \<Rightarrow> nat list \<Rightarrow> (nat \<times> outcome) list" where
  "arrivals outs order = map (\<lambda>i. (i, outs ! i)) order"

definition is_failure :: "pyval \<Rightarrow> bool" where
  "is_failure v = (case v of PFailure _ \<Rightarrow> True | _ \<Rightarrow> False)"

text \<open>
  The status proper of spec sections 3 and 6, one of Running, Completed and Failed:
  the snapshot without the result or the failure it carries.
\<close>

datatype phase = IsRunning | IsCompleted | IsFailed

definition phase_of :: "status \<Rightarrow> phase" where
  "phase_of st =
     (case st of Running \<Rightarrow> IsRunning | Completed _ \<Rightarrow> IsCompleted | Failed _ \<Rightarrow> IsFailed)"

text \<open>
  What the slots hold while the children with terminal outcomes \<open>outs\<close> complete:
  an empty slot, or that child's own outcome.
\<close>

definition agrees :: "outcome option list \<Rightarrow> outcome list \<Rightarrow> bool" where
  "agrees slots outs \<longleftrightarrow>
     length slots = length outs
     \<and> (\<forall>i<length slots. slots ! i = None \<or> slots ! i = Some (outs ! i))"

section \<open>The batch request as the specification words it\<close>

text \<open>
  An item is well formed when it is an object with a non-empty string under each of
  \<^verbatim>\<open>name\<close>, \<^verbatim>\<open>url\<close> and \<^verbatim>\<open>container\<close>; a request object is
  malformed when its \<^verbatim>\<open>blobs\<close> field is missing, is not a list, is an empty
  list, or holds an item that is not well formed.
\<close>

definition well_formed_item :: "pyval \<Rightarrow> bool" where
  "well_formed_item b =
     (case b of
        PDict d \<Rightarrow>
          list_all (\<lambda>k. case map_of d k of Some (PStr s) \<Rightarrow> s \<noteq> [] | _ \<Rightarrow> False) required
      | _ \<Rightarrow> False)"

definition malformed_blobs :: "(string \<times> pyval) list \<Rightarrow> bool" where
  "malformed_blobs d =
     (case map_of d ''blobs'' of
        None \<Rightarrow> True
      | Some (PList bs) \<Rightarrow> bs = [] \<or> list_ex (\<lambda>b. \<not> well_formed_item b) bs
      | Some _ \<Rightarrow> True)"

section \<open>The child orchestration\<close>

text \<open>
  C4. For an item that has a \<^verbatim>\<open>name\<close>, the child orchestration whose three
  activity calls succeed issues exactly three activities, in the order extract
  (\<^verbatim>\<open>runDocIntel\<close> on the item), transform (\<^verbatim>\<open>callAoai\<close> on the
  extract's output and the child's instance id), persist (\<^verbatim>\<open>writeToBlob\<close>
  on the transform's output and the item's name), and completes with the item, the
  extracted content and the persist outcome; signals left in the script are not consumed.
\<close>

theorem process_blob_three_steps:
  assumes "getitem blob_metadata ''name'' = Inr blob_name"
  shows "drive (process_blob blob_metadata iid)
           (Sent text_result # Sent json_str # Sent task_result # rest) =
         ([CallActivity ''runDocIntel'' blob_metadata,
           CallActivity ''callAoai''
             (PDict [(''text_result'', text_result), (''instance_id'', PStr iid)]),
           CallActivity ''writeToBlob''
             (PDict [(''json_str'', json_str), (''blob_name'', blob_name)])],
          Completed (PDict [(''blob'', blob_metadata), (''text_result'', text_result),
                            (''task_result'', task_result)]))"
  using assms by (simp add: process_blob_def)

theorem process_blob_three_steps_witness:
  "getitem (PDict [(''name'', PStr ''bronze/a.pdf''), (''url'', PStr ''u1''),
                   (''container'', PStr ''bronze'')]) ''name'' = Inr (PStr ''bronze/a.pdf'')
   \<and> drive (process_blob (PDict [(''name'', PStr ''bronze/a.pdf''), (''url'', PStr ''u1''),
                   (''container'', PStr ''bronze'')]) ''child-0'')
           [Sent (PStr ''text''), Sent (PStr ''{}''), Sent (PBool True)] =
         ([CallActivity ''runDocIntel''
             (PDict [(''name'', PStr ''bronze/a.pdf''), (''url'', PStr ''u1''),
                     (''container'', PStr ''bronze'')]),
           CallActivity ''callAoai''
             (PDict [(''text_result'', PStr ''text''), (''instance_id'', PStr ''child-0'')]),
           CallActivity ''writeToBlob''
             (PDict [(''json_str'', PStr ''{}''), (''blob_name'', PStr ''bronze/a.pdf'')])],
          Completed (PDict [(''blob'', PDict [(''name'', PStr ''bronze/a.pdf''),
                                (''url'', PStr ''u1''), (''container'', PStr ''bronze'')]),
                            (''text_result'', PStr ''text''),
                            (''task_result'', PBool True)]))"
proof -
  have h: "getitem (PDict [(''name'', PStr ''bronze/a.pdf''), (''url'', PStr ''u1''),
                   (''container'', PStr ''bronze'')]) ''name'' = Inr (PStr ''bronze/a.pdf'')"
    by (simp add: getitem_def)
  show ?thesis
    using h process_blob_three_steps [OF h, of "''child-0''" "PStr ''text''" "PStr ''{}''"
        "PBool True" "[]"]
    by simp
qed

text \<open>
  C10. When the first failure signal arrives at step \<open>i\<close> (0 extract, 1 transform,
  2 persist), the child ends Failed with that very failure, and the activities it issued
  are the first \<open>i + 1\<close> of the sequence, each once: the failed one is not issued
  again and nothing follows it, whatever signals the script still holds.
\<close>

theorem process_blob_no_retry:
  assumes nm: "getitem blob_metadata ''name'' = Inr blob_name"
    and i: "i < 3" "i < length rs"
    and fail: "rs ! i = Thrown e"
    and ok: "\<forall>j<i. \<exists>v. rs ! j = Sent v"
  shows "snd (drive (process_blob blob_metadata iid) rs) = Failed e
       \<and> map activity_name (fst (drive (process_blob blob_metadata iid) rs))
           = take (Suc i) [''runDocIntel'', ''callAoai'', ''writeToBlob'']"
proof -
  consider "i = 0" | "i = 1" | "i = 2" using i by linarith
  then show ?thesis
  proof cases
    case 1
    then obtain rest where "rs = Thrown e # rest"
      using i fail by (cases rs) auto
    then show ?thesis using 1 by (simp add: process_blob_def activity_name_def)
  next
    case 2
    then obtain v0 rest where "rs = Sent v0 # Thrown e # rest"
      using i fail ok by (cases rs; cases "tl rs") auto
    then show ?thesis using 2 by (simp add: process_blob_def activity_name_def)
  next
    case 3
    have "\<exists>v. rs ! 0 = Sent v" "\<exists>v. rs ! 1 = Sent v" using ok 3 by auto
    then obtain v0 v1 rest where "rs = Sent v0 # Sent v1 # Thrown e # rest"
      using i fail 3 by (cases rs; cases "tl rs"; cases "tl (tl rs)")
        (auto simp: numeral_2_eq_2)
    then show ?thesis
      using 3 nm
      by (simp add: process_blob_def activity_name_def numeral_3_eq_3 numeral_2_eq_2)
  qed
qed

theorem process_blob_no_retry_witness:
  "getitem (PDict [(''name'', PStr ''bronze/a.pdf'')]) ''name'' = Inr (PStr ''bronze/a.pdf'')
   \<and> snd (drive (process_blob (PDict [(''name'', PStr ''bronze/a.pdf'')]) ''child-0'')
          [Sent (PStr ''text''), Thrown (ActivityFailure ''boom''), Sent PNone])
       = Failed (ActivityFailure ''boom'')
   \<and> map activity_name
         (fst (drive (process_blob (PDict [(''name'', PStr ''bronze/a.pdf'')]) ''child-0'')
            [Sent (PStr ''text''), Thrown (ActivityFailure ''boom''), Sent PNone]))
       = [''runDocIntel'', ''callAoai'']"
proof -
  let ?rs = "[Sent (PStr ''text''), Thrown (ActivityFailure ''boom''), Sent PNone]"
  have h: "getitem (PDict [(''name'', PStr ''bronze/a.pdf'')]) ''name''
             = Inr (PStr ''bronze/a.pdf'')"
    by (simp add: getitem_def)
  have 1: "(1::nat) < 3" by simp
  have 2: "(1::nat) < length ?rs" by simp
  have 3: "?rs ! 1 = Thrown (ActivityFailure ''boom'')" by simp
  have 4: "\<forall>j<(1::nat). \<exists>v. ?rs ! j = Sent v" by simp
  show ?thesis
    using h process_blob_no_retry [OF h 1 2 3 4, of "''child-0''"] by simp
qed

section \<open>The parent orchestration and its join\<close>

lemma joinAll_None_iff: "joinAll slots = None \<longleftrightarrow> (\<exists>i<length slots. slots ! i = None)"
  by (auto simp: joinAll_def list_ex_iff in_set_conv_nth)

lemma joinAll_agrees:
  assumes "agrees slots outs" "joinAll slots = Some xs"
  shows "xs = outs"
proof -
  have full: "\<forall>i<length slots. slots ! i \<noteq> None"
    using assms(2) joinAll_None_iff[of slots] by auto
  have "xs = map the slots" using assms(2) by (auto simp: joinAll_def split: if_splits)
  moreover have "map the slots = outs"
    using assms(1) full by (auto simp: agrees_def intro!: nth_equalityI)
  ultimately show ?thesis by simp
qed

lemma agrees_fanOut: "length outs = length ts \<Longrightarrow> agrees (fanOut ts) outs"
  by (simp add: agrees_def fanOut_def)

lemma agrees_child_terminal:
  "agrees slots outs \<Longrightarrow> agrees (child_terminal i (outs ! i) slots) outs"
  by (auto simp: agrees_def child_terminal_def nth_list_update)

lemma length_child_terminal [simp]: "length (child_terminal i oc slots) = length slots"
  by (simp add: child_terminal_def)

lemma child_terminal_filled:
  "i < length slots \<Longrightarrow> child_terminal i oc slots ! i \<noteq> None"
  by (auto simp: child_terminal_def)

lemma child_terminal_other:
  "j \<noteq> i \<Longrightarrow> child_terminal i oc slots ! j = slots ! j"
  by (auto simp: child_terminal_def)

lemma await_all_complete:
  assumes "agrees slots outs"
    and "\<forall>i<length slots. slots ! i = None \<longrightarrow> i \<in> set order"
  shows "await_all slots (arrivals outs order) = Some outs"
  using assms
proof (induction order arbitrary: slots)
  case Nil
  then have "joinAll slots \<noteq> None" using joinAll_None_iff[of slots] by auto
  then obtain xs where "joinAll slots = Some xs" by auto
  with Nil show ?case using joinAll_agrees by (auto simp: arrivals_def)
next
  case (Cons a order)
  show ?case
  proof (cases "joinAll slots")
    case (Some xs)
    with Cons.prems(1) have "xs = outs" using joinAll_agrees by blast
    with Some show ?thesis by (simp add: arrivals_def)
  next
    case None
    let ?s = "child_terminal a (outs ! a) slots"
    have 1: "agrees ?s outs" using Cons.prems(1) by (rule agrees_child_terminal)
    have 2: "\<forall>i<length ?s. ?s ! i = None \<longrightarrow> i \<in> set order"
    proof (intro allI impI)
      fix i assume i: "i < length ?s" and n: "?s ! i = None"
      have "i \<noteq> a" using child_terminal_filled[of a slots "outs ! a"] i n by auto
      then have "slots ! i = None" using n child_terminal_other[of i a] by simp
      then show "i \<in> set order" using Cons.prems(2) i \<open>i \<noteq> a\<close> by auto
    qed
    have "await_all ?s (arrivals outs order) = Some outs" using Cons.IH[OF 1 2] .
    then show ?thesis using None by (simp add: arrivals_def)
  qed
qed

lemma await_all_pending:
  assumes "i < length slots" "slots ! i = None" "i \<notin> fst ` set evs"
  shows "await_all slots evs = None"
  using assms
proof (induction evs arbitrary: slots)
  case Nil
  then show ?case using joinAll_None_iff[of slots] by auto
next
  case (Cons ev evs)
  obtain j oc where ev: "ev = (j, oc)" by (cases ev)
  have n: "joinAll slots = None" using Cons.prems joinAll_None_iff[of slots] by auto
  have "j \<noteq> i" using Cons.prems(3) ev by auto
  then have "child_terminal j oc slots ! i = None"
    using Cons.prems(2) child_terminal_other[of i j] by simp
  then have "await_all (child_terminal j oc slots) evs = None"
    using Cons.IH[of "child_terminal j oc slots"] Cons.prems by simp
  then show ?case using n ev by simp
qed

lemma run_list:
  "run (PList items) = Yield (TaskAll (map (CallSubOrchestrator ''ProcessBlob'') items))
            (\<lambda>s. case s of Sent results \<Rightarrow> Return results | Thrown e \<Rightarrow> Raise e)"
  by (simp add: run_def iterate_def)

lemma orchestrate_joined:
  assumes "await_all (fanOut (map (CallSubOrchestrator ''ProcessBlob'') items)) evs = Some outs"
  shows "orchestrate (PList items) evs =
     (map (CallSubOrchestrator ''ProcessBlob'') items, Completed (PList (map outcome_val outs)))"
  using assms by (simp add: orchestrate_def run_list finish_def)

lemma orchestrate_waiting:
  assumes "await_all (fanOut (map (CallSubOrchestrator ''ProcessBlob'') items)) evs = None"
  shows "orchestrate (PList items) evs =
     (map (CallSubOrchestrator ''ProcessBlob'') items, Running)"
  using assms by (simp add: orchestrate_def run_list finish_def)

lemma orchestrate_all_arrived:
  assumes len: "length outs = length items"
    and order: "set order = {..<length items}"
  shows "orchestrate (PList items) (arrivals outs order) =
           (map (CallSubOrchestrator ''ProcessBlob'') items,
            Completed (PList (map outcome_val outs)))"
proof -
  let ?ts = "map (CallSubOrchestrator ''ProcessBlob'') items"
  have a: "agrees (fanOut ?ts) outs" using len by (simp add: agrees_fanOut)
  have b: "\<forall>i<length (fanOut ?ts). fanOut ?ts ! i = None \<longrightarrow> i \<in> set order"
    using order by (simp add: fanOut_def)
  have "await_all (fanOut ?ts) (arrivals outs order) = Some outs"
    using await_all_complete[OF a b] .
  then show ?thesis by (simp add: orchestrate_joined)
qed

lemma orchestrate_some_pending:
  assumes i: "i < length items" "i \<notin> set order"
  shows "orchestrate (PList items) (arrivals outs order) =
           (map (CallSubOrchestrator ''ProcessBlob'') items, Running)"
proof -
  let ?ts = "map (CallSubOrchestrator ''ProcessBlob'') items"
  have "fst ` set (arrivals outs order) = set order"
    by (force simp: arrivals_def)
  then have "await_all (fanOut ?ts) (arrivals outs order) = None"
    using i by (intro await_all_pending[of i]) (simp_all add: fanOut_def)
  then show ?thesis by (simp add: orchestrate_waiting)
qed

text \<open>
  On its own, \<^verbatim>\<open>run\<close> issues one join over the children and hands back what
  the join delivers; it has no handler, so an exception thrown at the
  \<^verbatim>\<open>yield\<close> fails the parent.
\<close>

lemma run_returns_delivered:
  "drive (run (PList items)) (Sent results # rest) =
     ([TaskAll (map (CallSubOrchestrator ''ProcessBlob'') items)], Completed results)"
  by (simp add: run_list)

lemma run_propagates_thrown:
  "drive (run (PList items)) (Thrown e # rest) =
     ([TaskAll (map (CallSubOrchestrator ''ProcessBlob'') items)], Failed e)"
  by (simp add: run_list)

text \<open>
  C1. For a batch of N items the parent starts exactly one \<^verbatim>\<open>ProcessBlob\<close>
  child per item, in input order, and once every child has completed, in whatever
  order \<open>order\<close> the completions arrive, its result is the list of the N child
  outcomes in input order.
\<close>

theorem fan_out_join_in_input_order:
  assumes len: "length outs = length items"
    and order: "set order = {..<length items}"
  shows "orchestrate (PList items) (arrivals outs order) =
           (map (CallSubOrchestrator ''ProcessBlob'') items,
            Completed (PList (map outcome_val outs)))
       \<and> length (map (CallSubOrchestrator ''ProcessBlob'') items) = length items
       \<and> length (map outcome_val outs) = length items"
  using orchestrate_all_arrived[OF len order] len by simp

theorem fan_out_join_in_input_order_witness:
  "length [Result (PStr ''r0''), Result (PStr ''r1''), Result (PStr ''r2'')]
     = length [PStr ''a'', PStr ''b'', PStr ''c'']
   \<and> set [2, 0, 1] = {..<length [PStr ''a'', PStr ''b'', PStr ''c'']}
   \<and> orchestrate (PList [PStr ''a'', PStr ''b'', PStr ''c''])
       [(2, Result (PStr ''r2'')), (0, Result (PStr ''r0'')), (1, Result (PStr ''r1''))] =
       ([CallSubOrchestrator ''ProcessBlob'' (PStr ''a''),
         CallSubOrchestrator ''ProcessBlob'' (PStr ''b''),
         CallSubOrchestrator ''ProcessBlob'' (PStr ''c'')],
        Completed (PList [PStr ''r0'', PStr ''r1'', PStr ''r2'']))"
proof -
  have l: "length [Result (PStr ''r0''), Result (PStr ''r1''), Result (PStr ''r2'')]
     = length [PStr ''a'', PStr ''b'', PStr ''c'']" by simp
  have s: "set [2, 0, 1] = {..<length [PStr ''a'', PStr ''b'', PStr ''c'']}" by auto
  show ?thesis
    using l s fan_out_join_in_input_order [OF l s]
    by (simp add: arrivals_def outcome_val_def)
qed

text \<open>
  The status of the parent follows the kind of signal the join resumes it with, never
  the outcomes inside a delivered list: \<^verbatim>\<open>run\<close> returns the list unread.
\<close>

lemma run_status_ignores_outcomes:
  "phase_of (snd (drive (run (PList items)) (Sent results # rest))) = IsCompleted"
  by (simp add: run_list phase_of_def)

text \<open>
  C2, as stated, has the parent's status tell partial failure from total failure. With
  three children, the parent whose second child alone fails and the parent whose
  children all fail both end Completed.
\<close>

theorem partial_and_total_failure_same_status:
  "phase_of (snd (orchestrate (PList [PStr ''a'', PStr ''b'', PStr ''c''])
       [(1, Failure (ActivityFailure ''boom'')), (2, Result (PStr ''r2'')),
        (0, Result (PStr ''r0''))])) = IsCompleted
   \<and> phase_of (snd (orchestrate (PList [PStr ''a'', PStr ''b'', PStr ''c''])
       [(1, Failure (ActivityFailure ''y'')), (2, Failure (ActivityFailure ''z'')),
        (0, Failure (ActivityFailure ''x''))])) = IsCompleted"
  by (simp add: orchestrate_def run_list fanOut_def child_terminal_def joinAll_def
      finish_def phase_of_def)

text \<open>
  C2, amended. One child of N (at least two) fails and the others succeed. While any
  child has not completed the parent stays suspended, also when the failure has already
  arrived; when all have completed, the parent's result holds all N per-item outcomes.
  The parent then is Completed, as it is when every child fails: the two cases have the
  same status and are told apart by the result, which holds an entry that is not a
  failure in the first case and failures only in the second.
\<close>

theorem join_waits_for_every_child:
  assumes len: "length outs = length items"
    and big: "2 \<le> length items"
    and j: "j < length items" "outs ! j = Failure e"
    and rest: "\<forall>i<length items. i \<noteq> j \<longrightarrow> (\<exists>v. outs ! i = Result v \<and> \<not> is_failure v)"
    and order: "set order = {..<length items}" "distinct order"
    and all_fail: "length outs' = length items" "\<forall>i<length items. \<exists>e'. outs' ! i = Failure e'"
  shows "(\<forall>k<length order.
            orchestrate (PList items) (arrivals outs (take k order)) =
              (map (CallSubOrchestrator ''ProcessBlob'') items, Running))
       \<and> orchestrate (PList items) (arrivals outs order) =
           (map (CallSubOrchestrator ''ProcessBlob'') items,
            Completed (PList (map outcome_val outs)))
       \<and> length (map outcome_val outs) = length items
       \<and> orchestrate (PList items) (arrivals outs' order) =
           (map (CallSubOrchestrator ''ProcessBlob'') items,
            Completed (PList (map outcome_val outs')))
       \<and> phase_of (snd (orchestrate (PList items) (arrivals outs order))) = IsCompleted
       \<and> phase_of (snd (orchestrate (PList items) (arrivals outs' order))) = IsCompleted
       \<and> list_ex (\<lambda>v. \<not> is_failure v) (map outcome_val outs)
       \<and> list_all is_failure (map outcome_val outs')"
proof -
  let ?ts = "map (CallSubOrchestrator ''ProcessBlob'') items"
  have full: "orchestrate (PList items) (arrivals outs order) =
      (?ts, Completed (PList (map outcome_val outs)))"
    using orchestrate_all_arrived[OF len order(1)] .
  have full': "orchestrate (PList items) (arrivals outs' order) =
      (?ts, Completed (PList (map outcome_val outs')))"
    using orchestrate_all_arrived[OF all_fail(1) order(1)] .
  have early: "orchestrate (PList items) (arrivals outs (take k order)) = (?ts, Running)"
    if k: "k < length order" for k
  proof -
    have "order ! k \<in> set order" using k by simp
    then have 1: "order ! k < length items" using order(1) by auto
    have "order ! k \<notin> set (take k order)"
    proof
      assume "order ! k \<in> set (take k order)"
      then obtain m where m: "m < k" "take k order ! m = order ! k"
        using k by (auto simp: in_set_conv_nth)
      then have "order ! m = order ! k" by simp
      then show False using order(2) m(1) k by (simp add: nth_eq_iff_index_eq)
    qed
    then show ?thesis using 1 by (rule orchestrate_some_pending[rotated])
  qed
  have "\<exists>i<length items. i \<noteq> j"
  proof (cases "j = 0")
    case True
    have "(1::nat) < length items" using big by linarith
    then show ?thesis using True by (intro exI[of _ 1]) simp
  next
    case False
    have "(0::nat) < length items" using big by linarith
    then show ?thesis using False by (intro exI[of _ 0]) simp
  qed
  then obtain i where i: "i < length items" "i \<noteq> j" by blast
  obtain v where v: "outs ! i = Result v" "\<not> is_failure v" using rest i by blast
  have "outcome_val (outs ! i) \<in> set (map outcome_val outs)"
    using i(1) len by simp
  moreover have "\<not> is_failure (outcome_val (outs ! i))"
    using v by (simp add: outcome_val_def)
  ultimately have some_ok: "list_ex (\<lambda>v. \<not> is_failure v) (map outcome_val outs)"
    unfolding list_ex_iff by blast
  have all_bad: "list_all is_failure (map outcome_val outs')"
    unfolding list_all_iff
  proof
    fix x assume "x \<in> set (map outcome_val outs')"
    then obtain m where m: "m < length outs'" "x = outcome_val (outs' ! m)"
      by (auto simp: in_set_conv_nth)
    then obtain e' where "outs' ! m = Failure e'" using all_fail by auto
    then show "is_failure x" using m(2) by (simp add: outcome_val_def is_failure_def)
  qed
  have ph: "phase_of (snd (orchestrate (PList items) (arrivals outs order))) = IsCompleted"
    by (simp add: full phase_of_def)
  have ph': "phase_of (snd (orchestrate (PList items) (arrivals outs' order))) = IsCompleted"
    by (simp add: full' phase_of_def)
  have early_all: "\<forall>k<length order.
      orchestrate (PList items) (arrivals outs (take k order)) = (?ts, Running)"
    using early by blast
  have l: "length (map outcome_val outs) = length items" using len by simp
  from early_all full l full' ph ph' some_ok all_bad show ?thesis by blast
qed

theorem join_waits_for_every_child_witness:
  "orchestrate (PList [PStr ''a'', PStr ''b'', PStr ''c''])
       [(1, Failure (ActivityFailure ''boom''))] =
       ([CallSubOrchestrator ''ProcessBlob'' (PStr ''a''),
         CallSubOrchestrator ''ProcessBlob'' (PStr ''b''),
         CallSubOrchestrator ''ProcessBlob'' (PStr ''c'')], Running)
   \<and> orchestrate (PList [PStr ''a'', PStr ''b'', PStr ''c''])
       [(1, Failure (ActivityFailure ''boom'')), (2, Result (PStr ''r2'')),
        (0, Result (PStr ''r0''))] =
       ([CallSubOrchestrator ''ProcessBlob'' (PStr ''a''),
         CallSubOrchestrator ''ProcessBlob'' (PStr ''b''),
         CallSubOrchestrator ''ProcessBlob'' (PStr ''c'')],
        Completed (PList [PStr ''r0'', PFailure (ActivityFailure ''boom''), PStr ''r2'']))
   \<and> orchestrate (PList [PStr ''a'', PStr ''b'', PStr ''c''])
       [(1, Failure (ActivityFailure ''y'')), (2, Failure (ActivityFailure ''z'')),
        (0, Failure (ActivityFailure ''x''))] =
       ([CallSubOrchestrator ''ProcessBlob'' (PStr ''a''),
         CallSubOrchestrator ''ProcessBlob'' (PStr ''b''),
         CallSubOrchestrator ''ProcessBlob'' (PStr ''c'')],
        Completed (PList [PFailure (ActivityFailure ''x''), PFailure (ActivityFailure ''y''),
                          PFailure (ActivityFailure ''z'')]))"
proof -
  let ?items = "[PStr ''a'', PStr ''b'', PStr ''c'']"
  let ?outs = "[Result (PStr ''r0''), Failure (ActivityFailure ''boom''), Result (PStr ''r2'')]"
  let ?outs' = "[Failure (ActivityFailure ''x''), Failure (ActivityFailure ''y''),
                 Failure (ActivityFailure ''z'')]"
  let ?order = "[1, 2, 0] :: nat list"
  have 1: "length ?outs = length ?items" by simp
  have 2: "2 \<le> length ?items" by simp
  have 3: "(1::nat) < length ?items" by simp
  have 4: "?outs ! 1 = Failure (ActivityFailure ''boom'')" by simp
  have 5: "\<forall>i<length ?items. i \<noteq> 1 \<longrightarrow> (\<exists>v. ?outs ! i = Result v \<and> \<not> is_failure v)"
    by (auto simp: is_failure_def less_Suc_eq numeral_3_eq_3)
  have 6: "set ?order = {..<length ?items}" by auto
  have 7: "distinct ?order" by simp
  have 8: "length ?outs' = length ?items" by simp
  have 9: "\<forall>i<length ?items. \<exists>e'. ?outs' ! i = Failure e'"
    by (auto simp: less_Suc_eq numeral_3_eq_3)
  note t = join_waits_for_every_child [OF 1 2 3 4 5 6 7 8 9]
  from t have "orchestrate (PList ?items) (arrivals ?outs (take 1 ?order)) =
              (map (CallSubOrchestrator ''ProcessBlob'') ?items, Running)"
    by (elim conjE allE[of _ 1]) simp
  moreover from t have "orchestrate (PList ?items) (arrivals ?outs ?order) =
           (map (CallSubOrchestrator ''ProcessBlob'') ?items,
            Completed (PList (map outcome_val ?outs)))" by blast
  moreover from t have "orchestrate (PList ?items) (arrivals ?outs' ?order) =
           (map (CallSubOrchestrator ''ProcessBlob'') ?items,
            Completed (PList (map outcome_val ?outs')))" by blast
  ultimately show ?thesis by (simp add: arrivals_def outcome_val_def)
qed

section \<open>The HTTP starter\<close>

text \<open>
  What holds of the validation: a request object that is malformed in the
  specification's sense is answered 400, invalid JSON is answered 400, and no
  orchestration is started unless the check-status response is returned.
\<close>

lemma bad_key_of_ill_formed:
  assumes "\<not> well_formed_item (PDict d)"
  shows "list_ex (bad_key d) required"
proof -
  from assms obtain k where k: "k \<in> set required"
    and bad: "\<not> (case map_of d k of Some (PStr s) \<Rightarrow> s \<noteq> [] | _ \<Rightarrow> False)"
    by (auto simp: well_formed_item_def list_all_iff)
  have "bad_key d k"
    using bad by (auto simp: bad_key_def strip_def split: option.splits pyval.splits)
  with k show ?thesis by (auto simp: list_ex_iff)
qed

lemma check_blobs_rejects:
  "list_ex (\<lambda>b. \<not> well_formed_item b) bs \<Longrightarrow>
     \<exists>msg. check_blobs i bs = Some (HttpResponse msg 400)"
proof (induction bs arbitrary: i)
  case Nil
  then show ?case by simp
next
  case (Cons b bs)
  show ?case
  proof (cases b)
    case (PDict d)
    show ?thesis
    proof (cases "list_ex (bad_key d) required")
      case True
      then show ?thesis using PDict by (simp add: missing_keys_def)
    next
      case False
      then have "well_formed_item b" using PDict bad_key_of_ill_formed by blast
      then have "list_ex (\<lambda>b. \<not> well_formed_item b) bs" using Cons.prems by simp
      then show ?thesis using Cons.IH PDict False by simp
    qed
  qed (simp_all add: not_an_object_def)
qed

lemma http_malformed_object_rejected:
  assumes "malformed_blobs d"
  shows "\<exists>msg. start_orchestrator_http (Some (PDict d)) = ([], HttpResponse msg 400)"
proof (cases "map_of d ''blobs''")
  case None
  then show ?thesis by (simp add: start_orchestrator_http_def dict_get_def not_an_array_def)
next
  case (Some v)
  show ?thesis
  proof (cases v)
    case (PList bs)
    show ?thesis
    proof (cases "bs = []")
      case True
      then show ?thesis using Some PList
        by (simp add: start_orchestrator_http_def dict_get_def not_an_array_def)
    next
      case False
      then have "list_ex (\<lambda>b. \<not> well_formed_item b) bs"
        using assms Some PList by (simp add: malformed_blobs_def)
      then obtain msg where "check_blobs 0 bs = Some (HttpResponse msg 400)"
        using check_blobs_rejects by blast
      then show ?thesis using Some PList False
        by (simp add: start_orchestrator_http_def dict_get_def)
    qed
  qed (use Some in \<open>simp_all add: start_orchestrator_http_def dict_get_def not_an_array_def\<close>)
qed

lemma http_invalid_json_rejected:
  "start_orchestrator_http None = ([], HttpResponse ''Invalid JSON.'' 400)"
  by (simp add: start_orchestrator_http_def)

lemma http_starts_only_on_success:
  "snd (start_orchestrator_http req) \<noteq> CheckStatusResponse \<Longrightarrow> fst (start_orchestrator_http req) = []"
  by (auto simp: start_orchestrator_http_def split: option.splits sum.splits pyval.splits if_splits)

text \<open>
  C3. A malformed batch request is to be rejected with HTTP 400. A body that is valid
  JSON but not an object, here the empty array, has no \<^verbatim>\<open>blobs\<close> field, yet
  the starter answers with no 400: \<^verbatim>\<open>body.get\<close> raises
  \<^verbatim>\<open>AttributeError\<close>, which nothing catches. No orchestration is started.
\<close>

theorem http_non_object_body_escapes:
  "start_orchestrator_http (Some (PList [])) = ([], Unhandled AttributeError)"
  by (simp add: start_orchestrator_http_def dict_get_def)

section \<open>The Event Grid starter\<close>

text \<open>
  C9. For a subject \<^verbatim>\<open>/containers/{c}/blobs/{n}\<close> the item's name is to be
  \<^verbatim>\<open>{c}/{n}\<close>. For the blob \<^verbatim>\<open>a/blobs/b.pdf\<close> in container
  \<^verbatim>\<open>bronze\<close> the starter builds the name \<^verbatim>\<open>bronze/a\<close>: the subject is
  split at every \<^verbatim>\<open>/blobs/\<close> and only the second piece is kept.
\<close>

theorem blob_name_cut_at_inner_marker:
  "start_orchestrator_blob
     \<lparr>subject = ''/blobServices/default/containers/bronze/blobs/a/blobs/b.pdf'',
      event_type = ''Microsoft.Storage.BlobCreated'',
      data = PDict [(''url'', PStr ''https://acct.blob.core.windows.net/bronze/a/blobs/b.pdf'')]\<rparr>
   = Inr (PList [PDict [(''name'', PStr ''bronze/a''),
        (''url'', PStr ''https://acct.blob.core.windows.net/bronze/a/blobs/b.pdf''),
        (''container'', PStr ''bronze'')]])"
  by code_simp

text \<open>
  The other parts of the claim hold: without \<^verbatim>\<open>/containers/\<close> the container is
  \<^verbatim>\<open>bronze\<close>, without \<^verbatim>\<open>/blobs/\<close> the whole subject is the blob name, and
  the orchestrator is always started with a one-element list.
\<close>

lemma split_from_no_occurrence:
  "\<not> sublist sep s \<Longrightarrow> split_from sep cur s = [rev cur @ s]"
proof (induction sep cur s rule: split_from.induct)
  case (1 sep cur s)
  show ?case
  proof (cases "s = []")
    case True
    then show ?thesis by (simp add: split_from.simps)
  next
    case False
    then obtain a s' where s: "s = a # s'" by (cases s) auto
    have np: "\<not> prefix sep s" using "1.prems" prefix_imp_sublist by blast
    have "\<not> sublist sep s'" using "1.prems" s by (simp add: sublist_Cons_right)
    then have "split_from sep (hd s # cur) (tl s) = [rev (hd s # cur) @ tl s]"
      using "1.IH"(2)[OF False] np s by simp
    then show ?thesis using False np s by (subst split_from.simps) simp
  qed
qed

lemma split_from_skip:
  "sep \<noteq> [] \<Longrightarrow> hd sep \<notin> set c \<Longrightarrow> split_from sep cur (c @ s) = split_from sep (rev c @ cur) s"
proof (induction c arbitrary: cur)
  case Nil
  then show ?case by simp
next
  case (Cons a c)
  have "\<not> prefix sep (a # c @ s)"
    using Cons.prems by (cases sep) auto
  then have "split_from sep cur ((a # c) @ s) = split_from sep (a # cur) (c @ s)"
    by (subst split_from.simps) simp
  also have "\<dots> = split_from sep (rev c @ a # cur) s"
    using Cons.IH[of "a # cur"] Cons.prems by simp
  finally show ?case by simp
qed

lemma split_from_at_sep:
  "sep \<noteq> [] \<Longrightarrow> split_from sep cur (sep @ s) = rev cur # split_from sep [] s"
  by (subst split_from.simps) simp

lemma split_from_first:
  "\<exists>p ps. split_from sep cur s = (rev cur @ p) # ps"
proof (induction sep cur s rule: split_from.induct)
  case (1 sep cur s)
  show ?case
  proof (cases "s = []")
    case True
    then show ?thesis by (simp add: split_from.simps)
  next
    case False
    show ?thesis
    proof (cases "sep \<noteq> [] \<and> prefix sep s")
      case True
      then show ?thesis using False by (subst split_from.simps) simp
    next
      case np: False
      obtain p ps where "split_from sep (hd s # cur) (tl s) = (rev (hd s # cur) @ p) # ps"
        using "1.IH"(2)[OF False np] by blast
      then have "split_from sep cur s = (rev cur @ (hd s # p)) # ps"
        using False np by (subst split_from.simps) simp
      then show ?thesis by blast
    qed
  qed
qed

lemma container_default:
  "\<not> sublist ''/containers/'' s \<Longrightarrow> container_name_of s = Inr ''bronze''"
  by (simp add: container_name_of_def split_def split_from_no_occurrence)

lemma blob_name_whole_subject:
  "\<not> sublist ''/blobs/'' s \<Longrightarrow> blob_name_of s = s"
  by (simp add: blob_name_of_def split_def split_from_no_occurrence)

lemma container_name_of_total: "\<exists>c. container_name_of s = Inr c"
proof -
  have "\<exists>p ps. split x ''/'' = p # ps" for x
    using split_from_first[of "''/''" "[]" x] by (simp add: split_def)
  then show ?thesis
    by (auto simp: container_name_of_def split: list.splits) (metis list.distinct(1))
qed

lemma starts_single_item:
  "\<exists>c. start_orchestrator_blob \<lparr>subject = s, event_type = t, data = PDict d\<rparr> =
     Inr (PList [PDict [(''name'', PStr (c @ ''/'' @ blob_name_of s)),
                        (''url'', case map_of d ''url'' of None \<Rightarrow> PNone | Some u \<Rightarrow> u),
                        (''container'', PStr c)]])
     \<and> container_name_of s = Inr c"
proof -
  obtain c where "container_name_of s = Inr c" using container_name_of_total by blast
  then show ?thesis
    by (auto simp: start_orchestrator_blob_def dict_get_def to_dict_def Let_def split: option.splits)
qed

text \<open>
  Where the claimed name is built: a subject of the documented form whose container
  name has no slash and is not \<^verbatim>\<open>blobs\<close>, and whose blob name does not contain
  \<^verbatim>\<open>/blobs/\<close>.
\<close>

lemma split_from_step:
  "\<not> prefix sep (a # s) \<Longrightarrow> split_from sep cur (a # s) = split_from sep (a # cur) s"
  by (subst split_from.simps) simp

lemma split_from_match:
  "sep \<noteq> [] \<Longrightarrow> prefix sep s \<Longrightarrow>
     split_from sep cur s = rev cur # split_from sep [] (drop (length sep) s)"
  by (subst split_from.simps) auto

lemma not_blobs_prefix:
  assumes "CHR ''/'' \<notin> set c" "c \<noteq> ''blobs''"
  shows "\<not> prefix ''blobs/'' (c @ CHR ''/'' # r)"
proof
  assume "prefix ''blobs/'' (c @ CHR ''/'' # r)"
  then obtain zs where "c @ CHR ''/'' # r = ''blobs/'' @ zs"
    by (auto simp: prefix_def)
  then obtain us where
    "c = ''blobs/'' @ us \<or> (c @ us = ''blobs/'' \<and> CHR ''/'' # r = us @ zs)"
    unfolding append_eq_append_conv2 by blast
  then show False
  proof
    assume "c = ''blobs/'' @ us"
    then have "CHR ''/'' \<in> set c" by simp
    then show False using assms(1) by simp
  next
    assume b: "c @ us = ''blobs/'' \<and> CHR ''/'' # r = us @ zs"
    show False
    proof (cases us)
      case Nil
      then have "CHR ''/'' \<in> set c" using b by simp
      then show False using assms(1) by simp
    next
      case (Cons u us')
      then have "u = CHR ''/''" using b by simp
      then have e: "c @ CHR ''/'' # us' = ''blobs'' @ CHR ''/'' # []" using b Cons by simp
      have n: "CHR ''/'' \<notin> set ''blobs''" by simp
      have n': "CHR ''/'' \<notin> set ([] :: string)" by simp
      have "''blobs'' = c \<and> [] = us'"
        by (rule iffD1[OF append_Cons_eq_iff[OF n n'] e[symmetric]])
      then have "c = ''blobs''" by simp
      then show False using assms(2) by simp
    qed
  qed
qed

lemma blob_name_of_subject:
  assumes "CHR ''/'' \<notin> set c" "c \<noteq> ''blobs''" "\<not> sublist ''/blobs/'' n"
  shows "blob_name_of (''/blobServices/default/containers/'' @ c @ ''/blobs/'' @ n) = n"
proof -
  have np: "\<not> prefix ''blobs/'' (c @ CHR ''/'' # r)" for r
    using assms(1,2) by (rule not_blobs_prefix)
  have 1: "split_from ''/blobs/'' [] (''/blobServices/default/containers/'' @ c @ ''/blobs/'' @ n)
      = split_from ''/blobs/'' (rev ''/blobServices/default/containers/'')
          (c @ ''/blobs/'' @ n)"
    using np by (simp add: split_from_step)
  have 2: "\<dots> = split_from ''/blobs/'' (rev c @ rev ''/blobServices/default/containers/'')
          (''/blobs/'' @ n)"
    using assms(1) by (subst split_from_skip) simp_all
  have 3: "\<dots> = (''/blobServices/default/containers/'' @ c) # split_from ''/blobs/'' [] n"
    by (subst split_from_at_sep) simp_all
  have 4: "split_from ''/blobs/'' [] n = [n]"
    using assms(3) by (simp add: split_from_no_occurrence)
  show ?thesis
    unfolding blob_name_of_def split_def 1 2 3 4 by simp
qed

lemma container_name_of_subject:
  assumes "CHR ''/'' \<notin> set c"
  shows "container_name_of (''/blobServices/default/containers/'' @ c @ ''/blobs/'' @ n) = Inr c"
proof -
  have 1: "split_from ''/containers/'' []
             (''/blobServices/default/containers/'' @ c @ ''/blobs/'' @ n)
      = split_from ''/containers/'' (rev ''/blobServices/default'')
          (''/containers/'' @ c @ ''/blobs/'' @ n)"
    by (simp add: split_from_step)
  have 2: "\<dots> = ''/blobServices/default''
                 # split_from ''/containers/'' [] (c @ ''/blobs/'' @ n)"
    by (subst split_from_at_sep) simp_all
  have 3: "split_from ''/containers/'' [] (c @ ''/blobs/'' @ n)
      = split_from ''/containers/'' (rev c) (''/blobs/'' @ n)"
    using assms by (subst split_from_skip) simp_all
  have 4: "\<dots> = split_from ''/containers/'' (rev ''/blobs'' @ rev c) (CHR ''/'' # n)"
    by (simp add: split_from_step)
  obtain p ps where 5: "split_from ''/containers/'' (rev ''/blobs'' @ rev c) (CHR ''/'' # n)
      = (rev (rev ''/blobs'' @ rev c) @ p) # ps"
    using split_from_first by blast
  have 6: "split_from ''/'' [] (c @ ''/blobs'' @ p) = split_from ''/'' (rev c) (''/blobs'' @ p)"
    using assms by (subst split_from_skip) simp_all
  have 7: "\<dots> = c # split_from ''/'' [] (''blobs'' @ p)"
    using split_from_at_sep[of "''/''" "rev c" "''blobs'' @ p"] by simp
  have "split (c @ ''/blobs'' @ p) ''/'' = c # split_from ''/'' [] (''blobs'' @ p)"
    unfolding split_def 6 7 ..
  moreover have "split (''/blobServices/default/containers/'' @ c @ ''/blobs/'' @ n) ''/containers/''
      = ''/blobServices/default'' # (c @ ''/blobs'' @ p) # ps"
    unfolding split_def 1 2 3 4 5 by simp
  ultimately show ?thesis by (simp add: container_name_of_def)
qed

lemma well_behaved_subject:
  assumes "CHR ''/'' \<notin> set c" "c \<noteq> ''blobs''" "\<not> sublist ''/blobs/'' n"
  shows "start_orchestrator_blob
           \<lparr>subject = ''/blobServices/default/containers/'' @ c @ ''/blobs/'' @ n,
            event_type = t, data = PDict [(''url'', u)]\<rparr>
         = Inr (PList [PDict [(''name'', PStr (c @ ''/'' @ n)), (''url'', u),
                              (''container'', PStr c)]])"
  using blob_name_of_subject[OF assms] container_name_of_subject[OF assms(1), of n]
  by (simp add: start_orchestrator_blob_def dict_get_def to_dict_def)

end
